theory Spec2Isabelle
  imports Main "HOL-Library.Word"
begin

section \<open>JavaScript strings\<close>

text \<open>
  A JavaScript string is a sequence of UTF-16 code units, and \<^verbatim>\<open>length\<close> counts code
  units. Literals of the source are ASCII and are written through \<open>lit\<close>; the two code
  units of the warning sign printed by the formatter are given by number.
  The limits of an engine (the longest string, the longest argument list of a call) are
  not part of the model.
\<close>

type_synonym code_unit = "16 word"
type_synonym jsstring = "code_unit list"

definition lit :: "string \<Rightarrow> jsstring" where
  "lit s = map of_char s"

definition NL :: code_unit where "NL = 0x0A"
definition SPACE :: code_unit where "SPACE = 0x20"
definition PLUS :: code_unit where "PLUS = 0x2B"
definition DASH :: code_unit where "DASH = 0x2D"
definition COLON :: code_unit where "COLON = 0x3A"
definition PIPE :: code_unit where "PIPE = 0x7C"

datatype js_error = RangeError | TypeError

text \<open>
  \<^verbatim>\<open>String.prototype.trim\<close> removes WhiteSpace and LineTerminator code points from both
  ends: TAB, LF, VT, FF, CR, SPACE, NBSP, the Unicode space separators (U+1680,
  U+2000 to U+200A, U+202F, U+205F, U+3000), LS, PS and the byte order mark U+FEFF.
\<close>

definition is_ws :: "code_unit \<Rightarrow> bool" where
  "is_ws c \<longleftrightarrow>
     c = 0x09 \<or> c = 0x0A \<or> c = 0x0B \<or> c = 0x0C \<or> c = 0x0D \<or> c = 0x20 \<or> c = 0xA0 \<or>
     c = 0x1680 \<or> (0x2000 \<le> c \<and> c \<le> 0x200A) \<or> c = 0x2028 \<or> c = 0x2029 \<or>
     c = 0x202F \<or> c = 0x205F \<or> c = 0x3000 \<or> c = 0xFEFF"

definition trimStart :: "jsstring \<Rightarrow> jsstring" where
  "trimStart s = dropWhile is_ws s"

definition trim :: "jsstring \<Rightarrow> jsstring" where
  "trim s = rev (dropWhile is_ws (rev (dropWhile is_ws s)))"

text \<open>
  \<^verbatim>\<open>s.split(sep)\<close> for a separator of one code unit: the pieces between the occurrences
  of the separator, empty pieces kept; the result is never empty
  (\<^verbatim>\<open>''.split('|')\<close> is \<^verbatim>\<open>['']\<close>).
\<close>

function split :: "code_unit \<Rightarrow> jsstring \<Rightarrow> jsstring list" where
  "split sep s =
     (case dropWhile (\<lambda>c. c \<noteq> sep) s of
        [] \<Rightarrow> [s]
      | c # rest \<Rightarrow> takeWhile (\<lambda>c. c \<noteq> sep) s # split sep rest)"
  by pat_completeness auto
termination
proof (relation "measure (\<lambda>(sep, s). length s)")
  show "wf (measure (\<lambda>(sep, s). length s))" by simp
next
  fix sep :: code_unit and s :: jsstring and c rest
  assume "dropWhile (\<lambda>c. c \<noteq> sep) s = c # rest"
  then have "length (c # rest) \<le> length s"
    by (metis length_dropWhile_le)
  then show "((sep, rest), (sep, s)) \<in> measure (\<lambda>(sep, s). length s)"
    by simp
qed

declare split.simps [simp del]

text \<open>\<^verbatim>\<open>xs.join(sep)\<close>: the empty string for an empty array.\<close>

fun join :: "jsstring \<Rightarrow> jsstring list \<Rightarrow> jsstring" where
  "join sep [] = []"
| "join sep [x] = x"
| "join sep (x # y # ys) = x @ sep @ join sep (y # ys)"

text \<open>\<^verbatim>\<open>s.repeat(n)\<close> throws a RangeError for a negative count.\<close>

definition repeat :: "jsstring \<Rightarrow> int \<Rightarrow> js_error + jsstring" where
  "repeat s n = (if n < 0 then Inl RangeError else Inr (concat (replicate (nat n) s)))"

text \<open>
  A callback that may throw, mapped over an array: the elements are visited in order
  and the first exception leaves the map.
\<close>

fun map_throw :: "('a \<Rightarrow> js_error + 'b) \<Rightarrow> 'a list \<Rightarrow> js_error + 'b list" where
  "map_throw f [] = Inr []"
| "map_throw f (x # xs) =
     (case f x of
        Inl e \<Rightarrow> Inl e
      | Inr y \<Rightarrow> (case map_throw f xs of Inl e \<Rightarrow> Inl e | Inr ys \<Rightarrow> Inr (y # ys)))"

section \<open>Regular expressions of the formatter\<close>

text \<open>
  The three patterns of the source, \<^verbatim>\<open>/^:-+:$/\<close>, \<^verbatim>\<open>/^:-+$/\<close> and \<^verbatim>\<open>/^-+:$/\<close>, use
  literal characters, concatenation and \<^verbatim>\<open>+\<close>. They carry no flag, so \<^verbatim>\<open>^\<close> and \<^verbatim>\<open>$\<close>
  are the two ends of the input and \<^verbatim>\<open>test\<close> succeeds exactly when the whole input
  matches the pattern between them. The matcher runs by derivatives.
\<close>

datatype regex =
    Fail
  | Eps
  | Lit code_unit
  | Cat regex regex
  | Alt regex regex
  | Many1 regex

fun nullable :: "regex \<Rightarrow> bool" where
  "nullable Fail = False"
| "nullable Eps = True"
| "nullable (Lit a) = False"
| "nullable (Cat r s) = (nullable r \<and> nullable s)"
| "nullable (Alt r s) = (nullable r \<or> nullable s)"
| "nullable (Many1 r) = nullable r"

fun deriv :: "code_unit \<Rightarrow> regex \<Rightarrow> regex" where
  "deriv c Fail = Fail"
| "deriv c Eps = Fail"
| "deriv c (Lit a) = (if a = c then Eps else Fail)"
| "deriv c (Cat r s) =
     (if nullable r then Alt (Cat (deriv c r) s) (deriv c s) else Cat (deriv c r) s)"
| "deriv c (Alt r s) = Alt (deriv c r) (deriv c s)"
| "deriv c (Many1 r) = Cat (deriv c r) (Alt Eps (Many1 r))"

fun test :: "regex \<Rightarrow> jsstring \<Rightarrow> bool" where
  "test r [] = nullable r"
| "test r (c # cs) = test (deriv c r) cs"

definition re_center :: regex where
  "re_center = Cat (Lit COLON) (Cat (Many1 (Lit DASH)) (Lit COLON))"

definition re_left :: regex where
  "re_left = Cat (Lit COLON) (Many1 (Lit DASH))"

definition re_right :: regex where
  "re_right = Cat (Many1 (Lit DASH)) (Lit COLON)"

text \<open>The words a pattern stands for, as the reference for the matcher.\<close>

fun lang :: "regex \<Rightarrow> jsstring set" where
  "lang Fail = {}"
| "lang Eps = {[]}"
| "lang (Lit a) = {[a]}"
| "lang (Cat r s) = {u @ v | u v. u \<in> lang r \<and> v \<in> lang s}"
| "lang (Alt r s) = lang r \<union> lang s"
| "lang (Many1 r) = {concat ws | ws. ws \<noteq> [] \<and> set ws \<subseteq> lang r}"

section \<open>formatMarkdownTable\<close>

datatype alignment = AlignLeft | AlignCenter | AlignRight

text \<open>The message written to the console when the rows differ in length.\<close>

definition warning :: jsstring where
  "warning = [0x26A0, 0xFE0F] @
     lit '' Please only select markdown table: inconsistent column counts.''"

text \<open>\<^verbatim>\<open>markdown.trim().split('\n')\<close>\<close>

definition table_lines :: "jsstring \<Rightarrow> jsstring list" where
  "table_lines markdown = split NL (trim markdown)"

text \<open>\<^verbatim>\<open>line.trim().split('|').map(cell => cell.trim())\<close>\<close>

definition parse_row :: "jsstring \<Rightarrow> jsstring list" where
  "parse_row line = map trim (split PIPE (trim line))"

text \<open>
  The row loses a leading empty cell, and then a trailing empty cell; the second test
  reads the row after the first removal. On an empty array both \<^verbatim>\<open>row[0]\<close> and
  \<^verbatim>\<open>row[row.length - 1]\<close> are \<^verbatim>\<open>undefined\<close>, which is not the empty string.
\<close>

definition clean_row :: "jsstring list \<Rightarrow> jsstring list" where
  "clean_row row =
     (let row1 = (case row of c # cs \<Rightarrow> (if c = [] then cs else row) | [] \<Rightarrow> row)
      in if row1 \<noteq> [] \<and> last row1 = [] then butlast row1 else row1)"

definition cleanedRows :: "jsstring \<Rightarrow> jsstring list list" where
  "cleanedRows markdown = map clean_row (map parse_row (table_lines markdown))"

definition colCount :: "jsstring list list \<Rightarrow> nat" where
  "colCount rows = length (rows ! 0)"

definition isValid :: "jsstring list list \<Rightarrow> bool" where
  "isValid rows = list_all (\<lambda>row. length row = colCount rows) rows"

definition align_of :: "jsstring \<Rightarrow> alignment" where
  "align_of cell =
     (if test re_center cell then AlignCenter
      else if test re_left cell then AlignLeft
      else if test re_right cell then AlignRight
      else AlignLeft)"

definition alignments :: "jsstring list list \<Rightarrow> alignment list" where
  "alignments rows = map align_of (rows ! 1)"

text \<open>
  \<^verbatim>\<open>row[col].length\<close>: outside the row, \<^verbatim>\<open>row[col]\<close> is \<^verbatim>\<open>undefined\<close> and reading its
  length throws a TypeError.
\<close>

definition cell_length :: "nat \<Rightarrow> jsstring list \<Rightarrow> js_error + int" where
  "cell_length col row =
     (if col < length row then Inr (int (length (row ! col))) else Inl TypeError)"

text \<open>
  \<^verbatim>\<open>Math.max(...xs)\<close> on lengths. Without arguments JavaScript answers \<open>-\<infinity>\<close>; the
  formatter calls it with one argument for each row, of which there are two at least,
  and lengths are not negative, so folding from 0 gives the same number.
\<close>

definition math_max :: "int list \<Rightarrow> int" where
  "math_max xs = fold max xs 0"

definition colWidths :: "jsstring list list \<Rightarrow> js_error + int list" where
  "colWidths rows =
     map_throw
       (\<lambda>col. case map_throw (cell_length col) rows of
                 Inl e \<Rightarrow> Inl e
               | Inr lens \<Rightarrow> Inr (math_max lens))
       [0 ..< colCount rows]"

definition padCell :: "jsstring \<Rightarrow> int \<Rightarrow> js_error + jsstring" where
  "padCell text width =
     (let space = width - int (length text);
          left = space div 2;
          right = space - left
      in case repeat [SPACE] left of
           Inl e \<Rightarrow> Inl e
         | Inr l \<Rightarrow> (case repeat [SPACE] right of
                       Inl e \<Rightarrow> Inl e
                     | Inr r \<Rightarrow> Inr (l @ text @ r)))"

text \<open>The cell of the alignment row, lines 195 to 201 of the source.\<close>

definition alignCell :: "alignment \<Rightarrow> int \<Rightarrow> js_error + jsstring" where
  "alignCell a len =
     (let left = (if a = AlignRight then len - 1
                  else if a = AlignCenter then (len - 1) div 2 else 0);
          right = len - 1 - left
      in case repeat [DASH] left of
           Inl e \<Rightarrow> Inl e
         | Inr l \<Rightarrow> (case repeat [DASH] right of
                       Inl e \<Rightarrow> Inl e
                     | Inr r \<Rightarrow>
                         Inr ((if a = AlignLeft then [COLON] else [DASH]) @ l @
                              (if a = AlignRight then [COLON] else [DASH]) @ r)))"

text \<open>
  One row of the output. The callback of \<^verbatim>\<open>row.map\<close> reads \<^verbatim>\<open>colWidths[i]\<close> and
  \<^verbatim>\<open>alignments[i]\<close> at the indices of the row; after the validation every row has
  \<open>colCount\<close> cells, which is the length of both arrays.
\<close>

definition formatCell ::
  "alignment list \<Rightarrow> int list \<Rightarrow> nat \<Rightarrow> nat \<times> jsstring \<Rightarrow> js_error + jsstring" where
  "formatCell aligns widths rowIndex ic =
     (case ic of (i, cell) \<Rightarrow>
        if rowIndex = 1 then alignCell (aligns ! i) (widths ! i)
        else padCell cell (widths ! i))"

definition formatRow ::
  "alignment list \<Rightarrow> int list \<Rightarrow> nat \<times> jsstring list \<Rightarrow> js_error + jsstring" where
  "formatRow aligns widths ir =
     (case ir of (rowIndex, row) \<Rightarrow>
        (case map_throw (formatCell aligns widths rowIndex) (enumerate 0 row) of
           Inl e \<Rightarrow> Inl e
         | Inr cells \<Rightarrow> Inr (lit ''| '' @ join (lit '' | '') cells @ lit '' |'')))"

text \<open>
  The result of a call: an exception, or the lines written to the console together
  with the returned string.
\<close>

definition formatMarkdownTable :: "jsstring \<Rightarrow> js_error + (jsstring list \<times> jsstring)" where
  "formatMarkdownTable markdown =
     (if length (table_lines markdown) < 2 then Inr ([], markdown)
      else let rows = cleanedRows markdown in
        if \<not> isValid rows then Inr ([warning], markdown)
        else case colWidths rows of
               Inl e \<Rightarrow> Inl e
             | Inr widths \<Rightarrow>
                 (case map_throw (formatRow (alignments rows) widths) (enumerate 0 rows) of
                    Inl e \<Rightarrow> Inl e
                  | Inr formattedRows \<Rightarrow> Inr ([], join [NL] formattedRows)))"

text \<open>
  An input is a valid table when it passes both tests that precede the rendering: it
  has two lines at least, and every cleaned row has as many cells as row 0.
\<close>

definition valid_table :: "jsstring \<Rightarrow> bool" where
  "valid_table markdown \<longleftrightarrow>
     2 \<le> length (table_lines markdown) \<and> isValid (cleanedRows markdown)"

text \<open>
  The alignment rule in the words of the specification: a colon, one dash or more and
  a colon is centred; a colon and one dash or more is left; one dash or more and a
  colon is right; anything else is left.
\<close>

definition spec_center :: "jsstring \<Rightarrow> bool" where
  "spec_center cell \<longleftrightarrow> (\<exists>n. 1 \<le> n \<and> cell = [COLON] @ replicate n DASH @ [COLON])"

definition spec_left :: "jsstring \<Rightarrow> bool" where
  "spec_left cell \<longleftrightarrow> (\<exists>n. 1 \<le> n \<and> cell = [COLON] @ replicate n DASH)"

definition spec_right :: "jsstring \<Rightarrow> bool" where
  "spec_right cell \<longleftrightarrow> (\<exists>n. 1 \<le> n \<and> cell = replicate n DASH @ [COLON])"

definition spec_alignment :: "jsstring \<Rightarrow> alignment" where
  "spec_alignment cell =
     (if spec_center cell then AlignCenter
      else if spec_left cell then AlignLeft
      else if spec_right cell then AlignRight
      else AlignLeft)"

section \<open>generateMarkdownTable\<close>

text \<open>
  The arguments arrive untyped: the command passes what the input boxes returned, a
  string or \<^verbatim>\<open>undefined\<close>, and the documentation of the function asks for numbers.
  A number argument is modelled by a signed integer of 54 bits, read by \<open>sint\<close>: the
  integers from \<open>-2\<^sup>5\<^sup>3\<close> to \<open>2\<^sup>5\<^sup>3 - 1\<close>, each of which a double holds exactly and
  \<^verbatim>\<open>ToString\<close> writes in plain decimal. Fractions, \<^verbatim>\<open>NaN\<close>, the infinities and the
  numbers of greater magnitude (from \<^verbatim>\<open>1e21\<close> on \<^verbatim>\<open>ToString\<close> writes an exponent, and
  \<^verbatim>\<open>parseInt(1e21)\<close> is 1) are not values of the model. What \<^verbatim>\<open>parseInt\<close> reads
  from a string is kept as the integer it denotes; its rounding to a double beyond
  \<open>2\<^sup>5\<^sup>3\<close> is outside the model.
\<close>

datatype jsval = Undefined | Str jsstring | Num "54 word"

definition MINUS :: code_unit where "MINUS = 0x2D"

text \<open>A default parameter replaces \<^verbatim>\<open>undefined\<close> only.\<close>

definition default_param :: "jsval \<Rightarrow> jsval \<Rightarrow> jsval" where
  "default_param v d = (case v of Undefined \<Rightarrow> d | _ \<Rightarrow> v)"

text \<open>
  \<^verbatim>\<open>ToString\<close>: an integer below \<open>10\<^sup>2\<^sup>1\<close> in magnitude, as every number of the model
  is, is written in decimal, with a minus sign when negative.
\<close>

definition digit_char :: "nat \<Rightarrow> code_unit" where
  "digit_char d = of_nat (48 + d)"

function decimal :: "nat \<Rightarrow> jsstring" where
  "decimal n = (if n < 10 then [digit_char n] else decimal (n div 10) @ [digit_char (n mod 10)])"
  by pat_completeness auto
termination
  by (relation "measure (\<lambda>n. n)") auto

declare decimal.simps [simp del]

definition to_string :: "jsval \<Rightarrow> jsstring" where
  "to_string v =
     (case v of
        Undefined \<Rightarrow> lit ''undefined''
      | Str s \<Rightarrow> s
      | Num w \<Rightarrow>
          (if sint w < 0 then MINUS # decimal (nat (- sint w)) else decimal (nat (sint w))))"

text \<open>
  \<^verbatim>\<open>parseInt(v)\<close> with no radix: the argument is turned into a string, leading white
  space is skipped, then a sign, then \<^verbatim>\<open>0x\<close> or \<^verbatim>\<open>0X\<close> (which selects radix 16), and
  the longest run of digits of the radix is read; what follows the digits is ignored.
  Without a digit the result is \<^verbatim>\<open>NaN\<close>, here \<open>None\<close>.
\<close>

definition digit_value :: "code_unit \<Rightarrow> nat option" where
  "digit_value c =
     (if 0x30 \<le> c \<and> c \<le> 0x39 then Some (unat c - 48)
      else if 0x61 \<le> c \<and> c \<le> 0x7A then Some (unat c - 87)
      else if 0x41 \<le> c \<and> c \<le> 0x5A then Some (unat c - 55)
      else None)"

definition is_digit :: "nat \<Rightarrow> code_unit \<Rightarrow> bool" where
  "is_digit R c = (case digit_value c of None \<Rightarrow> False | Some d \<Rightarrow> d < R)"

definition digits_value :: "nat \<Rightarrow> jsstring \<Rightarrow> nat" where
  "digits_value R Z = foldl (\<lambda>acc c. acc * R + the (digit_value c)) 0 Z"

definition parseInt :: "jsval \<Rightarrow> int option" where
  "parseInt v =
     (let S = trimStart (to_string v);
          sign = (if S \<noteq> [] \<and> hd S = MINUS then - 1 else 1);
          S1 = (if S \<noteq> [] \<and> (hd S = PLUS \<or> hd S = MINUS) then tl S else S);
          hex = (take 2 S1 = lit ''0x'' \<or> take 2 S1 = lit ''0X'');
          R = (if hex then 16 else 10);
          S2 = (if hex then drop 2 S1 else S1);
          Z = takeWhile (is_digit R) S2
      in if Z = [] then None else Some (sign * int (digits_value R Z)))"

text \<open>\<^verbatim>\<open>x || d\<close> on the result of \<^verbatim>\<open>parseInt\<close>: \<^verbatim>\<open>NaN\<close> and 0 are the falsy numbers.\<close>

definition or_else :: "int option \<Rightarrow> int \<Rightarrow> int" where
  "or_else x d = (case x of None \<Rightarrow> d | Some n \<Rightarrow> if n = 0 then d else n)"

text \<open>Lines 59 and 60: \<^verbatim>\<open>Math.max(1, parseInt(rows) || 2)\<close>, after the default parameter.\<close>

definition count_param :: "jsval \<Rightarrow> int" where
  "count_param v = max 1 (or_else (parseInt (default_param v (Num 2))) 2)"









section \<open>Properties of the formatter\<close>

subsection \<open>Lines and rows\<close>

lemma split_not_Nil: "split sep s \<noteq> []"
  by (subst split.simps) (simp split: list.split)

lemma length_cleanedRows: "length (cleanedRows md) = length (table_lines md)"
  by (simp add: cleanedRows_def)

lemma short_table_one_row:
  assumes "length (table_lines md) < 2"
  shows "\<exists>r. cleanedRows md = [r]"
proof -
  have "table_lines md \<noteq> []"
    by (simp add: table_lines_def split_not_Nil)
  with assms have "length (table_lines md) = 1"
    by (cases "table_lines md") simp_all
  then have "length (cleanedRows md) = 1"
    by (simp only: length_cleanedRows)
  then show ?thesis
    by (cases "cleanedRows md") simp_all
qed

subsection \<open>Rows of different lengths\<close>

text \<open>
  Claim C4. When some cleaned row has another number of cells than row 0, the formatter
  writes the warning to the console and returns its argument as it received it, white
  space around the table included. The sample of the specification, a header of two
  cells over a separator of one cell and a data row of three, is the witness.
\<close>

theorem invalid_passthrough:
  assumes "\<exists>row \<in> set (cleanedRows md). length row \<noteq> length (cleanedRows md ! 0)"
  shows "formatMarkdownTable md = Inr ([warning], md)"
proof -
  from assms obtain row where row: "row \<in> set (cleanedRows md)"
    and ne: "length row \<noteq> length (cleanedRows md ! 0)" by blast
  have two: "\<not> length (table_lines md) < 2"
  proof
    assume "length (table_lines md) < 2"
    then obtain r where "cleanedRows md = [r]"
      using short_table_one_row by blast
    with row ne show False by simp
  qed
  have "\<not> isValid (cleanedRows md)"
    unfolding isValid_def colCount_def list_all_iff using row ne by blast
  with two show ?thesis
    by (simp add: formatMarkdownTable_def Let_def)
qed

theorem invalid_passthrough_witness:
  "formatMarkdownTable (lit ''| a | b |\<newline>|---|\<newline>| 1 | 2 | 3 |'') =
     Inr ([warning], lit ''| a | b |\<newline>|---|\<newline>| 1 | 2 | 3 |'')"
proof -
  have rows: "cleanedRows (lit ''| a | b |\<newline>|---|\<newline>| 1 | 2 | 3 |'') =
      [[lit ''a'', lit ''b''], [lit ''---''], [lit ''1'', lit ''2'', lit ''3'']]"
    by code_simp
  have "\<exists>row \<in> set (cleanedRows (lit ''| a | b |\<newline>|---|\<newline>| 1 | 2 | 3 |'')).
          length row \<noteq> length (cleanedRows (lit ''| a | b |\<newline>|---|\<newline>| 1 | 2 | 3 |'') ! 0)"
    unfolding rows by simp
  then show ?thesis by (rule invalid_passthrough)
qed

subsection \<open>A column of empty cells\<close>

text \<open>
  Claim C9 asks that the formatter returns a string for every input and never throws.
  The two lines \<^verbatim>\<open>||\<close> and \<^verbatim>\<open>||\<close> are a table of one column whose cells are empty: the
  rows agree in length, the width of the column is 0, and the alignment row asks for
  \<^verbatim>\<open>'-'.repeat(-1)\<close>, which throws a RangeError.
\<close>

theorem format_throws_on_empty_column:
  "formatMarkdownTable (lit ''||\<newline>||'') = Inl RangeError"
  by code_simp

subsection \<open>The matcher and the patterns\<close>

lemma lang_Many1_I: "ws \<noteq> [] \<Longrightarrow> set ws \<subseteq> lang r \<Longrightarrow> concat ws \<in> lang (Many1 r)"
  by (simp only: lang.simps) blast

lemma lang_Cat_I: "u \<in> lang r \<Longrightarrow> v \<in> lang s \<Longrightarrow> u @ v \<in> lang (Cat r s)"
  by (simp only: lang.simps) blast

lemma nullable_lang: "nullable r \<longleftrightarrow> [] \<in> lang r"
proof (induction r)
  case (Many1 r)
  show ?case
  proof
    assume "nullable (Many1 r)"
    with Many1 have "[] \<in> lang r" by simp
    then have "concat [[]] \<in> lang (Many1 r)"
      by (intro lang_Many1_I) simp_all
    then show "[] \<in> lang (Many1 r)" by simp
  next
    assume "[] \<in> lang (Many1 r)"
    then obtain ws where ws: "concat ws = []" "ws \<noteq> []" "set ws \<subseteq> lang r" by auto
    then obtain w ws' where "ws = w # ws'" by (cases ws) auto
    with ws have "w = []" "w \<in> lang r" by auto
    with Many1 show "nullable (Many1 r)" by simp
  qed
next
  case (Cat r s)
  then show ?case by simp
qed simp_all

lemma lang_Many1_E:
  assumes "w \<in> lang (Many1 r)"
  obtains ws where "w = concat ws" "ws \<noteq> []" "set ws \<subseteq> lang r"
  using assms by (simp only: lang.simps mem_Collect_eq) blast

lemma lang_Cat_E:
  assumes "w \<in> lang (Cat r s)"
  obtains u v where "w = u @ v" "u \<in> lang r" "v \<in> lang s"
  using assms by (simp only: lang.simps mem_Collect_eq) blast

lemma concat_eq_Cons_split:
  assumes "concat ws = c # w" and "set ws \<subseteq> L"
  shows "\<exists>u vs. c # u \<in> L \<and> set vs \<subseteq> L \<and> w = u @ concat vs"
  using assms
proof (induction ws)
  case Nil
  then show ?case by simp
next
  case (Cons x xs)
  show ?case
  proof (cases x)
    case Nil
    with Cons.prems have "concat xs = c # w" "set xs \<subseteq> L" by simp_all
    then show ?thesis by (rule Cons.IH)
  next
    case (Cons a u)
    with Cons.prems have "a = c" "w = u @ concat xs" "c # u \<in> L" "set xs \<subseteq> L"
      by simp_all
    then show ?thesis by blast
  qed
qed

lemma lang_deriv: "w \<in> lang (deriv c r) \<longleftrightarrow> c # w \<in> lang r"
proof (induction r arbitrary: w)
  case (Cat r s)
  show ?case
  proof
    assume a: "w \<in> lang (deriv c (Cat r s))"
    have "w \<in> lang (Cat (deriv c r) s) \<or> (nullable r \<and> w \<in> lang (deriv c s))"
      using a by (cases "nullable r") simp_all
    then show "c # w \<in> lang (Cat r s)"
    proof
      assume "w \<in> lang (Cat (deriv c r) s)"
      then obtain u v where 1: "w = u @ v" "u \<in> lang (deriv c r)" "v \<in> lang s"
        by (rule lang_Cat_E)
      then have "(c # u) @ v \<in> lang (Cat r s)"
        using Cat.IH(1) by (intro lang_Cat_I) simp_all
      with 1 show ?thesis by simp
    next
      assume 2: "nullable r \<and> w \<in> lang (deriv c s)"
      then have "[] @ (c # w) \<in> lang (Cat r s)"
        using Cat.IH(2) nullable_lang by (intro lang_Cat_I) simp_all
      then show ?thesis by simp
    qed
  next
    assume "c # w \<in> lang (Cat r s)"
    then obtain u v where uv: "c # w = u @ v" "u \<in> lang r" "v \<in> lang s"
      by (rule lang_Cat_E)
    show "w \<in> lang (deriv c (Cat r s))"
    proof (cases u)
      case Nil
      with uv have "nullable r" "w \<in> lang (deriv c s)"
        using Cat.IH(2) nullable_lang by simp_all
      then show ?thesis by simp
    next
      case (Cons a u')
      with uv have w: "w = u' @ v" and "u' \<in> lang (deriv c r)"
        using Cat.IH(1) by simp_all
      from this(2) uv(3) have "u' @ v \<in> lang (Cat (deriv c r) s)"
        by (rule lang_Cat_I)
      with w show ?thesis by simp
    qed
  qed
next
  case (Many1 r)
  show ?case
  proof
    assume "w \<in> lang (deriv c (Many1 r))"
    then have "w \<in> lang (Cat (deriv c r) (Alt Eps (Many1 r)))" by simp
    then obtain u v where uv: "w = u @ v" "u \<in> lang (deriv c r)"
      "v \<in> lang (Alt Eps (Many1 r))" by (rule lang_Cat_E)
    then have cu: "c # u \<in> lang r" using Many1.IH by simp
    from uv(3) have "v = [] \<or> v \<in> lang (Many1 r)" by simp
    then obtain vs where vs: "v = concat vs" "set vs \<subseteq> lang r"
    proof
      assume "v = []"
      then have "v = concat []" "set [] \<subseteq> lang r" by simp_all
      then show ?thesis by (rule that)
    next
      assume "v \<in> lang (Many1 r)"
      then show ?thesis by (rule lang_Many1_E) (rule that)
    qed
    with cu have "concat ((c # u) # vs) \<in> lang (Many1 r)"
      by (intro lang_Many1_I) simp_all
    with uv vs show "c # w \<in> lang (Many1 r)" by simp
  next
    assume "c # w \<in> lang (Many1 r)"
    then obtain ws where ws: "c # w = concat ws" "set ws \<subseteq> lang r"
      by (rule lang_Many1_E)
    from ws(1) [symmetric] ws(2) obtain u vs where u: "c # u \<in> lang r" and vs: "set vs \<subseteq> lang r"
      and w: "w = u @ concat vs"
      by (rule concat_eq_Cons_split [THEN exE]) blast
    have "concat vs \<in> lang (Alt Eps (Many1 r))"
    proof (cases vs)
      case Nil
      then show ?thesis by simp
    next
      case (Cons a list)
      with vs have "concat vs \<in> lang (Many1 r)"
        by (intro lang_Many1_I) simp_all
      then show ?thesis by simp
    qed
    moreover from u have "u \<in> lang (deriv c r)" using Many1.IH by simp
    ultimately have "u @ concat vs \<in> lang (Cat (deriv c r) (Alt Eps (Many1 r)))"
      by (intro lang_Cat_I)
    with w show "w \<in> lang (deriv c (Many1 r))" by simp
  qed
qed auto

lemma test_lang: "test r w \<longleftrightarrow> w \<in> lang r"
proof (induction w arbitrary: r)
  case Nil
  show ?case by (simp only: test.simps nullable_lang)
next
  case (Cons c w)
  show ?case by (simp only: test.simps Cons.IH lang_deriv)
qed

lemma concat_singletons: "set ws \<subseteq> {[d]} \<Longrightarrow> concat ws = replicate (length ws) d"
  by (induction ws) simp_all

lemma concat_replicate_single: "concat (replicate n [d]) = replicate n d"
  by (induction n) simp_all

lemma lang_Many1_Lit: "w \<in> lang (Many1 (Lit d)) \<longleftrightarrow> (\<exists>n. 1 \<le> n \<and> w = replicate n d)"
proof
  assume "w \<in> lang (Many1 (Lit d))"
  then obtain ws where ws: "w = concat ws" "ws \<noteq> []" "set ws \<subseteq> lang (Lit d)"
    by (rule lang_Many1_E)
  from ws(3) have "concat ws = replicate (length ws) d"
    by (intro concat_singletons) simp
  moreover from ws(2) have "1 \<le> length ws"
    by (cases ws) simp_all
  ultimately show "\<exists>n. 1 \<le> n \<and> w = replicate n d"
    using ws(1) by blast
next
  assume "\<exists>n. 1 \<le> n \<and> w = replicate n d"
  then obtain n where n: "1 \<le> n" "w = replicate n d" by blast
  from n(1) have "replicate n [d] \<noteq> []" by (cases n) simp_all
  moreover have "set (replicate n [d]) \<subseteq> lang (Lit d)"
    by (simp add: set_replicate_conv_if)
  ultimately have "concat (replicate n [d]) \<in> lang (Many1 (Lit d))"
    by (rule lang_Many1_I)
  with n(2) show "w \<in> lang (Many1 (Lit d))"
    by (simp only: concat_replicate_single)
qed

lemma lang_Cat_iff: "w \<in> lang (Cat r s) \<longleftrightarrow> (\<exists>u v. w = u @ v \<and> u \<in> lang r \<and> v \<in> lang s)"
  by (simp only: lang.simps mem_Collect_eq)

lemma lang_Lit_iff: "w \<in> lang (Lit a) \<longleftrightarrow> w = [a]"
  by simp

lemma test_center: "test re_center cell \<longleftrightarrow> spec_center cell"
  unfolding test_lang re_center_def spec_center_def lang_Cat_iff lang_Many1_Lit lang_Lit_iff
  by blast

lemma test_left: "test re_left cell \<longleftrightarrow> spec_left cell"
  unfolding test_lang re_left_def spec_left_def lang_Cat_iff lang_Many1_Lit lang_Lit_iff
  by blast

lemma test_right: "test re_right cell \<longleftrightarrow> spec_right cell"
  unfolding test_lang re_right_def spec_right_def lang_Cat_iff lang_Many1_Lit lang_Lit_iff
  by blast

lemma align_of_spec: "align_of cell = spec_alignment cell"
  by (simp only: align_of_def spec_alignment_def test_center test_left test_right)

subsection \<open>Alignment of a column\<close>

lemma valid_table_rows:
  assumes "valid_table md"
  shows "2 \<le> length (cleanedRows md)"
    and "\<And>row. row \<in> set (cleanedRows md) \<Longrightarrow> length row = colCount (cleanedRows md)"
  using assms by (simp_all add: valid_table_def length_cleanedRows isValid_def list_all_iff)

lemma valid_table_separator:
  assumes "valid_table md"
  shows "cleanedRows md ! 1 \<in> set (cleanedRows md)"
    and "length (cleanedRows md ! 1) = colCount (cleanedRows md)"
proof -
  from valid_table_rows(1) [OF assms] have "1 < length (cleanedRows md)" by simp
  then show "cleanedRows md ! 1 \<in> set (cleanedRows md)" by (rule nth_mem)
  then show "length (cleanedRows md ! 1) = colCount (cleanedRows md)"
    by (rule valid_table_rows(2) [OF assms])
qed

text \<open>
  Claim C6. In a valid table the alignment of column \<open>i\<close> is read from cell \<open>i\<close> of
  row 1 by the three patterns in their order: a colon, dashes and a colon is centred;
  else a colon and dashes is left; else dashes and a colon is right; else left. The
  witness is a table whose alignment row holds the four samples of the specification.
\<close>

theorem alignment_inference:
  assumes "valid_table md" and "i < colCount (cleanedRows md)"
  shows "length (alignments (cleanedRows md)) = colCount (cleanedRows md) \<and>
         alignments (cleanedRows md) ! i = spec_alignment (cleanedRows md ! 1 ! i)"
proof -
  have len: "length (cleanedRows md ! 1) = colCount (cleanedRows md)"
    using assms(1) by (rule valid_table_separator(2))
  with assms(2) have "map align_of (cleanedRows md ! 1) ! i = align_of (cleanedRows md ! 1 ! i)"
    by simp
  with len show ?thesis
    by (simp add: alignments_def align_of_spec)
qed

theorem alignment_inference_witness:
  "valid_table (lit ''|a|b|c|d|\<newline>|:--:|:--|--:|--|'') \<and>
   2 < colCount (cleanedRows (lit ''|a|b|c|d|\<newline>|:--:|:--|--:|--|'')) \<and>
   alignments (cleanedRows (lit ''|a|b|c|d|\<newline>|:--:|:--|--:|--|'')) =
     [AlignCenter, AlignLeft, AlignRight, AlignLeft] \<and>
   spec_alignment (lit ''--:'') = AlignRight"
proof -
  have v: "valid_table (lit ''|a|b|c|d|\<newline>|:--:|:--|--:|--|'')"
    by code_simp
  have c: "2 < colCount (cleanedRows (lit ''|a|b|c|d|\<newline>|:--:|:--|--:|--|''))"
    by code_simp
  have a: "alignments (cleanedRows (lit ''|a|b|c|d|\<newline>|:--:|:--|--:|--|'')) =
     [AlignCenter, AlignLeft, AlignRight, AlignLeft]"
    by code_simp
  have r: "cleanedRows (lit ''|a|b|c|d|\<newline>|:--:|:--|--:|--|'') ! 1 ! 2 = lit ''--:''"
    by code_simp
  from alignment_inference [OF v c] a r have "spec_alignment (lit ''--:'') = AlignRight"
    by simp
  with v c a show ?thesis by simp
qed

subsection \<open>Width of a column\<close>

lemma map_throw_Inr:
  assumes "\<And>x. x \<in> set xs \<Longrightarrow> f x = Inr (g x)"
  shows "map_throw f xs = Inr (map g xs)"
  using assms by (induction xs) simp_all

lemma fold_max_Max: "fold max xs (a::int) = Max (insert a (set xs))"
proof -
  have "Max (set (a # xs)) = fold max xs a"
    by (rule Max.set_eq_fold)
  then show ?thesis by simp
qed

lemma math_max_Max:
  assumes "xs \<noteq> []" and "\<And>x. x \<in> set xs \<Longrightarrow> 0 \<le> x"
  shows "math_max xs = Max (set xs)"
proof -
  have "math_max xs = Max (insert 0 (set xs))"
    by (simp only: math_max_def fold_max_Max)
  also have "\<dots> = max 0 (Max (set xs))"
    using assms(1) by (intro Max_insert) simp_all
  also have "\<dots> = Max (set xs)"
  proof -
    from assms(1) obtain x where x: "x \<in> set xs" by (cases xs) auto
    then have "0 \<le> x" by (rule assms(2))
    also have "x \<le> Max (set xs)" using x by simp
    finally show ?thesis by simp
  qed
  finally show ?thesis .
qed

lemma colWidths_valid:
  assumes "\<And>row. row \<in> set rows \<Longrightarrow> length row = colCount rows"
  shows "colWidths rows =
     Inr (map (\<lambda>col. math_max (map (\<lambda>row. int (length (row ! col))) rows)) [0 ..< colCount rows])"
  unfolding colWidths_def
proof (rule map_throw_Inr)
  fix col assume "col \<in> set [0 ..< colCount rows]"
  then have col: "col < colCount rows" by simp
  have "map_throw (cell_length col) rows = Inr (map (\<lambda>row. int (length (row ! col))) rows)"
  proof (rule map_throw_Inr)
    fix row assume "row \<in> set rows"
    then have "length row = colCount rows" by (rule assms)
    with col show "cell_length col row = Inr (int (length (row ! col)))"
      by (simp add: cell_length_def)
  qed
  then show "(case map_throw (cell_length col) rows of Inl e \<Rightarrow> Inl e | Inr lens \<Rightarrow> Inr (math_max lens)) =
     Inr (math_max (map (\<lambda>row. int (length (row ! col))) rows))"
    by simp
qed

text \<open>
  Claim C5. In a valid table the width computed for column \<open>i\<close> is the greatest length
  of a cell of that column over all cleaned rows; the cell of the alignment row is one
  of them, so its length is a lower bound of the width. In the witness the alignment
  cell \<^verbatim>\<open>:---:\<close> is the longest of its column and sets the width 5.
\<close>

theorem column_width_is_max:
  assumes "valid_table md" and "i < colCount (cleanedRows md)"
  shows "\<exists>widths. colWidths (cleanedRows md) = Inr widths \<and>
           length widths = colCount (cleanedRows md) \<and>
           widths ! i = Max ((\<lambda>row. int (length (row ! i))) ` set (cleanedRows md)) \<and>
           int (length (cleanedRows md ! 1 ! i)) \<le> widths ! i"
proof -
  let ?rows = "cleanedRows md"
  let ?lens = "map (\<lambda>row. int (length (row ! i))) ?rows"
  let ?widths = "map (\<lambda>col. math_max (map (\<lambda>row. int (length (row ! col))) ?rows)) [0 ..< colCount ?rows]"
  have w: "colWidths ?rows = Inr ?widths"
    using valid_table_rows(2) [OF assms(1)] by (rule colWidths_valid)
  have "?rows \<noteq> []"
    using valid_table_rows(1) [OF assms(1)] by auto
  then have "?lens \<noteq> []" by simp
  then have "math_max ?lens = Max (set ?lens)"
    by (rule math_max_Max) auto
  with assms(2) have m: "?widths ! i = Max ((\<lambda>row. int (length (row ! i))) ` set ?rows)"
    by simp
  have "int (length (?rows ! 1 ! i)) \<in> (\<lambda>row. int (length (row ! i))) ` set ?rows"
    using valid_table_separator(1) [OF assms(1)] by (rule imageI)
  then have "int (length (?rows ! 1 ! i)) \<le> Max ((\<lambda>row. int (length (row ! i))) ` set ?rows)"
    by (intro Max_ge) simp_all
  with m have s: "int (length (?rows ! 1 ! i)) \<le> ?widths ! i" by simp
  have "length ?widths = colCount ?rows" by simp
  with w m s show ?thesis by blast
qed

theorem column_width_is_max_witness:
  "valid_table (lit ''|a|bb|\<newline>|:---:|-|\<newline>|1|22|'') \<and>
   0 < colCount (cleanedRows (lit ''|a|bb|\<newline>|:---:|-|\<newline>|1|22|'')) \<and>
   colWidths (cleanedRows (lit ''|a|bb|\<newline>|:---:|-|\<newline>|1|22|'')) = Inr [5, 2] \<and>
   Max ((\<lambda>row. int (length (row ! 0))) ` set (cleanedRows (lit ''|a|bb|\<newline>|:---:|-|\<newline>|1|22|''))) = 5"
proof -
  have v: "valid_table (lit ''|a|bb|\<newline>|:---:|-|\<newline>|1|22|'')"
    by code_simp
  have c: "0 < colCount (cleanedRows (lit ''|a|bb|\<newline>|:---:|-|\<newline>|1|22|''))"
    by code_simp
  have w: "colWidths (cleanedRows (lit ''|a|bb|\<newline>|:---:|-|\<newline>|1|22|'')) = Inr [5, 2]"
    by code_simp
  from column_width_is_max [OF v c] w
  have "Max ((\<lambda>row. int (length (row ! 0))) ` set (cleanedRows (lit ''|a|bb|\<newline>|:---:|-|\<newline>|1|22|''))) = 5"
    by simp
  with v c w show ?thesis by simp
qed

section \<open>Properties of the generator\<close>

subsection \<open>Reading back a number\<close>

lemma below_ten:
  "d < 10 \<Longrightarrow> d = 0 \<or> d = 1 \<or> d = 2 \<or> d = 3 \<or> d = 4 \<or> d = 5 \<or> d = 6 \<or> d = 7 \<or> d = 8 \<or> d = (9::nat)"
  by arith

lemma digit_char_value: "d < 10 \<Longrightarrow> digit_value (digit_char d) = Some d"
  by (drule below_ten) (elim disjE; simp add: digit_char_def digit_value_def)

lemma digit_char_plain:
  assumes "d < 10"
  shows "\<not> is_ws (digit_char d)" and "digit_char d \<noteq> MINUS" and "digit_char d \<noteq> PLUS"
    and "digit_char d \<noteq> 0x78" and "digit_char d \<noteq> 0x58"
  using below_ten [OF assms]
  by (elim disjE; simp add: digit_char_def is_ws_def MINUS_def PLUS_def)+

lemma decimal_digits: "c \<in> set (decimal n) \<Longrightarrow> \<exists>d<10. c = digit_char d"
proof (induction n rule: decimal.induct)
  case (1 n)
  show ?case
  proof (cases "n < 10")
    case True
    with "1.prems" have "c = digit_char n"
      by (simp add: decimal.simps [of n])
    with True show ?thesis by blast
  next
    case False
    with "1.prems" have "c \<in> set (decimal (n div 10)) \<or> c = digit_char (n mod 10)"
      by (auto simp add: decimal.simps [of n])
    then show ?thesis
    proof
      assume "c \<in> set (decimal (n div 10))"
      with False show ?thesis using "1.IH" by blast
    next
      assume "c = digit_char (n mod 10)"
      moreover have "n mod 10 < 10" by simp
      ultimately show ?thesis by blast
    qed
  qed
qed

lemma decimal_not_Nil: "decimal n \<noteq> []"
  by (simp add: decimal.simps [of n])

lemma digits_value_snoc:
  "digits_value R (Z @ [c]) = digits_value R Z * R + the (digit_value c)"
  by (simp add: digits_value_def)

lemma digits_value_decimal: "digits_value 10 (decimal n) = n"
proof (induction n rule: decimal.induct)
  case (1 n)
  show ?case
  proof (cases "n < 10")
    case True
    then show ?thesis
      by (simp add: decimal.simps [of n] digits_value_def digit_char_value)
  next
    case False
    then have "digits_value 10 (decimal (n div 10)) = n div 10" by (rule "1.IH")
    moreover have "the (digit_value (digit_char (n mod 10))) = n mod 10"
      by (simp add: digit_char_value)
    ultimately show ?thesis
      using False by (simp add: decimal.simps [of n] digits_value_snoc)
  qed
qed

lemma decimal_all_digits: "takeWhile (is_digit 10) (decimal n) = decimal n"
proof -
  have "\<And>c. c \<in> set (decimal n) \<Longrightarrow> is_digit 10 c"
  proof -
    fix c assume "c \<in> set (decimal n)"
    then obtain d where "d < 10" "c = digit_char d"
      using decimal_digits by blast
    then show "is_digit 10 c" by (simp add: is_digit_def digit_char_value)
  qed
  then show ?thesis by (simp add: takeWhile_eq_all_conv)
qed

lemma decimal_hd:
  obtains d ds where "decimal n = digit_char d # ds" and "d < 10"
proof -
  obtain c ds where cds: "decimal n = c # ds"
    using decimal_not_Nil [of n] by (cases "decimal n") auto
  then have "c \<in> set (decimal n)" by simp
  then obtain d where "d < 10" "c = digit_char d" using decimal_digits by blast
  with cds show ?thesis using that by blast
qed

lemma lit_hex_prefix: "lit ''0x'' = [0x30, 0x78]" "lit ''0X'' = [0x30, 0x58]"
  by (simp_all add: lit_def)

lemma decimal_no_letter:
  assumes "take 2 (decimal n) = [a, b]"
  shows "b \<noteq> 0x78 \<and> b \<noteq> 0x58"
proof -
  have "b \<in> set [a, b]" by simp
  then have "b \<in> set (take 2 (decimal n))" by (simp only: assms)
  then have "b \<in> set (decimal n)" by (rule in_set_takeD)
  then obtain d where d: "d < 10" and b: "b = digit_char d" using decimal_digits by blast
  from digit_char_plain(4,5) [OF d] show ?thesis by (simp only: b) simp
qed

lemma decimal_no_hex_prefix:
  "take 2 (decimal n) \<noteq> lit ''0x''" "take 2 (decimal n) \<noteq> lit ''0X''"
  unfolding lit_hex_prefix using decimal_no_letter [of n] by blast+

lemma parseInt_unsigned:
  assumes "to_string v = S" and "S \<noteq> []" and "\<not> is_ws (hd S)"
    and "hd S \<noteq> MINUS" and "hd S \<noteq> PLUS"
    and "take 2 S \<noteq> lit ''0x''" and "take 2 S \<noteq> lit ''0X''"
  shows "parseInt v =
     (if takeWhile (is_digit 10) S = [] then None
      else Some (int (digits_value 10 (takeWhile (is_digit 10) S))))"
proof -
  from assms(2,3) have "trimStart S = S"
    by (cases S) (simp_all add: trimStart_def)
  then have S: "trimStart (to_string v) = S" by (simp only: assms(1))
  show ?thesis
    unfolding parseInt_def Let_def S
    by (simp only: assms(4-7) simp_thms if_False if_True mult_1 of_nat_numeral)
qed

lemma parseInt_negative:
  assumes "to_string v = MINUS # S"
    and "take 2 S \<noteq> lit ''0x''" and "take 2 S \<noteq> lit ''0X''"
  shows "parseInt v =
     (if takeWhile (is_digit 10) S = [] then None
      else Some (- int (digits_value 10 (takeWhile (is_digit 10) S))))"
proof -
  have "\<not> is_ws MINUS" by (simp add: is_ws_def MINUS_def)
  then have S: "trimStart (to_string v) = MINUS # S"
    by (simp add: assms(1) trimStart_def)
  show ?thesis
    unfolding parseInt_def Let_def S
    by (simp only: assms(2,3) list.sel simp_thms if_False if_True list.distinct
        mult_minus1 not_Cons_self2)
qed

text \<open>
  Every number of the model is below \<open>10\<^sup>2\<^sup>1\<close> in magnitude, where \<^verbatim>\<open>ToString\<close> writes no
  exponent, and \<^verbatim>\<open>parseInt\<close> reads it back.
\<close>

lemma number_plain_decimal: "\<bar>sint (w :: 54 word)\<bar> < 10 ^ 21"
proof -
  have "- (2 ^ 53) \<le> sint w" "sint w < 2 ^ 53"
    using sint_ge [of w] sint_lt [of w] by simp_all
  then show ?thesis by simp
qed

lemma parseInt_Num: "parseInt (Num w) = Some (sint w)"
proof (cases "sint w < 0")
  case True
  then have "to_string (Num w) = MINUS # decimal (nat (- sint w))"
    by (simp add: to_string_def)
  then have "parseInt (Num w) =
     (if takeWhile (is_digit 10) (decimal (nat (- sint w))) = [] then None
      else Some (- int (digits_value 10 (takeWhile (is_digit 10) (decimal (nat (- sint w)))))))"
    using decimal_no_hex_prefix by (rule parseInt_negative)
  with True show ?thesis
    by (simp add: decimal_all_digits decimal_not_Nil digits_value_decimal)
next
  case False
  obtain d ds where dec: "decimal (nat (sint w)) = digit_char d # ds" and d: "d < 10"
    by (rule decimal_hd)
  from False have "to_string (Num w) = decimal (nat (sint w))"
    by (simp add: to_string_def)
  moreover have "decimal (nat (sint w)) \<noteq> []" by (rule decimal_not_Nil)
  moreover have "\<not> is_ws (hd (decimal (nat (sint w))))" "hd (decimal (nat (sint w))) \<noteq> MINUS"
    "hd (decimal (nat (sint w))) \<noteq> PLUS"
    using digit_char_plain(1-3) [OF d] by (simp_all add: dec)
  ultimately have "parseInt (Num w) =
     (if takeWhile (is_digit 10) (decimal (nat (sint w))) = [] then None
      else Some (int (digits_value 10 (takeWhile (is_digit 10) (decimal (nat (sint w)))))))"
    using decimal_no_hex_prefix by (rule parseInt_unsigned)
  with False show ?thesis
    by (simp add: decimal_all_digits decimal_not_Nil digits_value_decimal)
qed

lemma parseInt_two: "parseInt (Num 2) = Some 2"
  using parseInt_Num [of 2] by simp



subsection \<open>The loops and the lines they write\<close>



lemma split_no_sep:
  assumes "sep \<notin> set s"
  shows "split sep s = [s]"
proof -
  from assms have d: "dropWhile (\<lambda>c. c \<noteq> sep) s = []"
    by (induction s) auto
  show ?thesis by (subst split.simps) (simp only: d list.case)
qed

lemma split_first:
  assumes "sep \<notin> set p"
  shows "split sep (p @ sep # rest) = p # split sep rest"
proof -
  from assms have d: "dropWhile (\<lambda>c. c \<noteq> sep) (p @ sep # rest) = sep # rest"
    by (induction p) auto
  from assms have t: "takeWhile (\<lambda>c. c \<noteq> sep) (p @ sep # rest) = p"
    by (induction p) auto
  show ?thesis
    by (subst split.simps) (simp only: d t list.case)
qed











subsection \<open>Normalising the counts\<close>

text \<open>
  Claim C8 says that every value that is not a positive number, the negative ones
  included, is replaced by the default 2. The string \<^verbatim>\<open>-5\<close> parses to \<open>-5\<close>, which is
  truthy, so \<^verbatim>\<open>||\<close> keeps it and \<^verbatim>\<open>Math.max\<close> raises it to 1, not 2.
\<close>

theorem negative_count_is_one:
  "parseInt (Str (lit ''-5'')) = Some (- 5) \<and> count_param (Str (lit ''-5'')) = 1 \<and>
   count_param (Str (lit ''-5'')) \<noteq> 2"
  by code_simp

text \<open>
  Claim C8, amended. A missing argument, an argument without a leading integer and an
  argument that parses to 0 give the count 2; a negative integer gives 1, by the floor
  at 1; a positive integer is kept; the count is always 1 at least.
\<close>

theorem count_param_normalised:
  "count_param Undefined = 2 \<and>
   (v \<noteq> Undefined \<longrightarrow>
      (parseInt v = None \<longrightarrow> count_param v = 2) \<and>
      (parseInt v = Some 0 \<longrightarrow> count_param v = 2) \<and>
      (\<forall>n. parseInt v = Some n \<and> n < 0 \<longrightarrow> count_param v = 1) \<and>
      (\<forall>n. parseInt v = Some n \<and> 0 < n \<longrightarrow> count_param v = n)) \<and>
   1 \<le> count_param v"
proof (intro conjI impI allI)
  show "count_param Undefined = 2"
    by (simp add: count_param_def default_param_def parseInt_two or_else_def)
  show "1 \<le> count_param v"
    by (simp add: count_param_def)
next
  assume "v \<noteq> Undefined"
  then have d: "default_param v (Num 2) = v"
    by (cases v) (simp_all add: default_param_def)
  show "count_param v = 2" if "parseInt v = None"
    using that by (simp add: count_param_def d or_else_def)
  show "count_param v = 2" if "parseInt v = Some 0"
    using that by (simp add: count_param_def d or_else_def)
  show "count_param v = 1" if "parseInt v = Some n \<and> n < 0" for n
    using that by (simp add: count_param_def d or_else_def)
  show "count_param v = n" if "parseInt v = Some n \<and> 0 < n" for n
    using that by (simp add: count_param_def d or_else_def)
qed

theorem count_param_normalised_witness:
  "count_param (Str (lit ''abc'')) = 2 \<and> count_param (Str (lit ''0'')) = 2 \<and>
   count_param (Str (lit ''-3'')) = 1 \<and> count_param (Str (lit ''7'')) = 7 \<and>
   count_param Undefined = 2"
proof -
  have "parseInt (Str (lit ''abc'')) = None" by code_simp
  with count_param_normalised [of "Str (lit ''abc'')"]
  have 1: "count_param (Str (lit ''abc'')) = 2" by simp
  have "parseInt (Str (lit ''0'')) = Some 0" by code_simp
  with count_param_normalised [of "Str (lit ''0'')"]
  have 2: "count_param (Str (lit ''0'')) = 2" by simp
  have "parseInt (Str (lit ''-3'')) = Some (- 3)" by code_simp
  with count_param_normalised [of "Str (lit ''-3'')"]
  have 3: "count_param (Str (lit ''-3'')) = 1" by simp
  have "parseInt (Str (lit ''7'')) = Some 7" by code_simp
  with count_param_normalised [of "Str (lit ''7'')"]
  have 4: "count_param (Str (lit ''7'')) = 7" by simp
  from count_param_normalised [of Undefined] have 5: "count_param Undefined = 2" by simp
  from 1 2 3 4 5 show ?thesis by simp
qed

section \<open>The alignment row as the formatter writes it\<close>

text \<open>
  Claim C1 asks that the rebuilt cell of the alignment row is \<open>len\<close> code units long,
  with a colon at the left edge for left and centre and a colon at the right edge for
  right and centre. The source writes an edge character, \<open>left\<close> dashes, a second edge
  character and \<open>right\<close> dashes with \<open>left + right = len - 1\<close>, which is \<open>len + 1\<close> code
  units, and both edge characters are dashes for centre. In the table below the column
  is centred and 3 wide, and its cell comes out as four dashes.
\<close>

theorem center_separator_rendered_as_dashes:
  "valid_table (lit ''|a|\<newline>|:-:|'') \<and>
   alignments (cleanedRows (lit ''|a|\<newline>|:-:|'')) = [AlignCenter] \<and>
   colWidths (cleanedRows (lit ''|a|\<newline>|:-:|'')) = Inr [3] \<and>
   alignCell AlignCenter 3 = Inr (lit ''----'') \<and>
   formatMarkdownTable (lit ''|a|\<newline>|:-:|'') = Inr ([], lit ''|  a  |\<newline>| ---- |'')"
  by code_simp

text \<open>
  Claim C2 asks that the segments of one column have the same length in every row of
  the output, the alignment row included. With a column of width 1 the header
  segment is 3 code units long and the segment of the alignment row is 4.
\<close>

theorem separator_segment_is_wider:
  "valid_table (lit ''|a|\<newline>|-|'') \<and>
   formatMarkdownTable (lit ''|a|\<newline>|-|'') = Inr ([], lit ''| a |\<newline>| :- |'') \<and>
   map (\<lambda>line. map length (split PIPE line)) (split NL (lit ''| a |\<newline>| :- |'')) =
     [[0, 3, 0], [0, 4, 0]]"
  by code_simp

text \<open>
  Claim C3 asks that formatting a formatted table gives the same string. The cell of the
  alignment row grows by one code unit at each pass and takes the width of the column
  with it: the second pass differs from the first.
\<close>

theorem format_twice_differs:
  "valid_table (lit ''|a|\<newline>|:-|'') \<and>
   formatMarkdownTable (lit ''|a|\<newline>|:-|'') = Inr ([], lit ''| a  |\<newline>| :-- |'') \<and>
   formatMarkdownTable (lit ''| a  |\<newline>| :-- |'') = Inr ([], lit ''|  a  |\<newline>| :--- |'') \<and>
   lit ''|  a  |\<newline>| :--- |'' \<noteq> lit ''| a  |\<newline>| :-- |''"
  by code_simp

section \<open>What the formatter keeps\<close>

text \<open>
  When every column of a valid table has a cell that is not empty, every width is 1 at
  least and the formatter returns. Its output then has one line for each line of the
  input, and reading the output back with the parser of the formatter gives the cells
  of the header and of the data rows as they were.
\<close>

subsection \<open>Trimming\<close>

lemma set_trim: "set (trim s) \<subseteq> set s"
proof -
  have "set (trim s) = set (dropWhile is_ws (rev (dropWhile is_ws s)))"
    by (simp add: trim_def)
  also have "\<dots> \<subseteq> set (rev (dropWhile is_ws s))"
    by (auto dest: set_dropWhileD)
  also have "\<dots> \<subseteq> set s"
    by (auto dest: set_dropWhileD)
  finally show ?thesis .
qed

lemma last_dropWhile: "dropWhile P xs \<noteq> [] \<Longrightarrow> last (dropWhile P xs) = last xs"
  by (induction xs) (auto split: if_splits)

lemma trim_edges:
  assumes "trim s \<noteq> []"
  shows "\<not> is_ws (hd (trim s))" and "\<not> is_ws (last (trim s))"
proof -
  let ?u = "dropWhile is_ws s"
  let ?v = "dropWhile is_ws (rev ?u)"
  have t: "trim s = rev ?v" by (simp add: trim_def)
  with assms have v: "?v \<noteq> []" by simp
  have u: "?u \<noteq> []"
  proof
    assume e: "?u = []"
    have "?v = []" unfolding e by simp
    with v show False by contradiction
  qed
  have "\<not> is_ws (hd ?v)" using v by (rule hd_dropWhile)
  then show "\<not> is_ws (last (trim s))"
    using v by (simp add: t last_rev)
  have "last ?v = last (rev ?u)" using v by (rule last_dropWhile)
  also have "\<dots> = hd ?u" using u by (simp add: last_rev)
  finally have "hd (trim s) = hd ?u" using v by (simp add: t hd_rev)
  moreover have "\<not> is_ws (hd ?u)" using u by (rule hd_dropWhile)
  ultimately show "\<not> is_ws (hd (trim s))" by simp
qed

lemma dropWhile_skip:
  "\<forall>c \<in> set a. P c \<Longrightarrow> \<not> P x \<Longrightarrow> dropWhile P (a @ x # xs) = x # xs"
  by (induction a) simp_all

lemma trim_padded:
  assumes "t = [] \<or> (\<not> is_ws (hd t) \<and> \<not> is_ws (last t))"
    and "\<forall>c \<in> set a. is_ws c" and "\<forall>c \<in> set b. is_ws c"
  shows "trim (a @ t @ b) = t"
proof (cases "t = []")
  case True
  with assms(2,3) have "\<forall>c \<in> set (a @ t @ b). is_ws c" by auto
  then have "dropWhile is_ws (a @ t @ b) = []"
    by (simp only: dropWhile_eq_Nil_conv)
  then have "trim (a @ t @ b) = []"
    unfolding trim_def by (simp only: rev.simps dropWhile.simps)
  with True show ?thesis by simp
next
  case False
  with assms(1) have h: "\<not> is_ws (hd t)" and l: "\<not> is_ws (last t)" by simp_all
  from False obtain x xs where t: "t = x # xs" by (cases t) auto
  from False obtain ys y where t': "rev t = y # ys" by (cases "rev t") auto
  with False have "y = last t" by (metis last_rev list.sel(1) rev_rev_ident hd_rev)
  with l have y: "\<not> is_ws y" by simp
  from t h have x: "\<not> is_ws x" by simp
  have "dropWhile is_ws (a @ x # xs @ b) = x # xs @ b"
    using assms(2) x by (rule dropWhile_skip)
  then have 1: "dropWhile is_ws (a @ t @ b) = t @ b"
    by (simp add: t)
  have "\<forall>c \<in> set (rev b). is_ws c" using assms(3) by simp
  then have "dropWhile is_ws (rev b @ y # ys) = y # ys"
    using y by (rule dropWhile_skip)
  then have 2: "dropWhile is_ws (rev (t @ b)) = rev t"
    by (simp add: t')
  show ?thesis
    unfolding trim_def 1 2 by simp
qed

lemma trim_fixed:
  assumes "s \<noteq> []" and "\<not> is_ws (hd s)" and "\<not> is_ws (last s)"
  shows "trim s = s"
  using trim_padded [of s "[]" "[]"] assms by simp

subsection \<open>Splitting and joining\<close>

lemma split_pieces:
  "p \<in> set (split sep s) \<Longrightarrow> sep \<notin> set p \<and> set p \<subseteq> set s"
proof (induction sep s arbitrary: p rule: split.induct)
  case (1 sep s)
  show ?case
  proof (cases "dropWhile (\<lambda>c. c \<noteq> sep) s")
    case Nil
    then have "\<forall>c \<in> set s. c \<noteq> sep" by (simp only: dropWhile_eq_Nil_conv)
    moreover have "split sep s = [s]"
      by (subst split.simps) (simp only: Nil list.case)
    with "1.prems" have "p = s" by simp
    ultimately show ?thesis by auto
  next
    case (Cons c rest)
    have "split sep s = takeWhile (\<lambda>c. c \<noteq> sep) s # split sep rest"
      by (subst split.simps) (simp only: Cons list.case)
    with "1.prems" have "p = takeWhile (\<lambda>c. c \<noteq> sep) s \<or> p \<in> set (split sep rest)"
      by simp
    then show ?thesis
    proof
      assume p: "p = takeWhile (\<lambda>c. c \<noteq> sep) s"
      then have "sep \<notin> set p" by (auto dest: set_takeWhileD)
      moreover from p have "set p \<subseteq> set s" by (auto dest: set_takeWhileD)
      ultimately show ?thesis by simp
    next
      assume "p \<in> set (split sep rest)"
      with Cons have "sep \<notin> set p \<and> set p \<subseteq> set rest" by (rule "1.IH")
      moreover have "set rest \<subseteq> set s"
      proof -
        have "set (dropWhile (\<lambda>c. c \<noteq> sep) s) \<subseteq> set s"
          by (auto dest: set_dropWhileD)
        with Cons show ?thesis by simp
      qed
      ultimately show ?thesis by auto
    qed
  qed
qed

lemma split_join:
  assumes "ps \<noteq> []" and "\<forall>p \<in> set ps. sep \<notin> set p"
  shows "split sep (join [sep] ps) = ps"
  using assms
proof (induction "[sep]" ps rule: join.induct)
  case 1
  then show ?case by simp
next
  case (2 x)
  then show ?case by (simp add: split_no_sep)
next
  case (3 x y ys)
  then have "split sep (join [sep] (y # ys)) = y # ys" by simp
  moreover have "split sep (x @ sep # join [sep] (y # ys)) = x # split sep (join [sep] (y # ys))"
    using 3 by (intro split_first) simp
  ultimately show ?case by simp
qed

lemma join_snoc_empty: "ps \<noteq> [] \<Longrightarrow> join sep ps @ sep = join sep (ps @ [[]])"
  by (induction sep ps rule: join.induct) simp_all

lemma set_clean_row: "set (clean_row row) \<subseteq> set row"
proof -
  have b: "set (butlast xs) \<subseteq> set xs" for xs :: "jsstring list"
    by (auto dest: in_set_butlastD)
  show ?thesis
  proof (cases row)
    case Nil
    then show ?thesis by (simp add: clean_row_def)
  next
    case (Cons c cs)
    show ?thesis
    proof (cases "c = []")
      case True
      with Cons b [of cs] show ?thesis
        by (auto simp add: clean_row_def)
    next
      case False
      with Cons b [of row] show ?thesis
        by (auto simp add: clean_row_def Let_def)
    qed
  qed
qed

lemma parsed_cell:
  assumes "row \<in> set (cleanedRows md)" and "cell \<in> set row"
  shows "PIPE \<notin> set cell" and "NL \<notin> set cell"
    and "cell = [] \<or> (\<not> is_ws (hd cell) \<and> \<not> is_ws (last cell))"
proof -
  from assms(1) obtain line where line: "line \<in> set (table_lines md)"
    and row: "row = clean_row (parse_row line)"
    by (auto simp add: cleanedRows_def)
  from assms(2) row have "cell \<in> set (parse_row line)"
    using set_clean_row by blast
  then obtain p where p: "p \<in> set (split PIPE (trim line))" and cell: "cell = trim p"
    by (auto simp add: parse_row_def)
  from line have "NL \<notin> set line"
    using split_pieces by (simp add: table_lines_def)
  with set_trim [of line] have nl: "NL \<notin> set (trim line)" by blast
  from p have pp: "PIPE \<notin> set p \<and> set p \<subseteq> set (trim line)" by (rule split_pieces)
  with set_trim [of p] show "PIPE \<notin> set cell" by (auto simp add: cell)
  from pp nl set_trim [of p] show "NL \<notin> set cell" by (auto simp add: cell)
  show "cell = [] \<or> (\<not> is_ws (hd cell) \<and> \<not> is_ws (last cell))"
    using trim_edges [of p] by (auto simp add: cell)
qed

subsection \<open>Cells and rows of the output\<close>

lemma repeat_unit: "0 \<le> n \<Longrightarrow> repeat [c] n = Inr (replicate (nat n) c)"
  by (simp add: repeat_def concat_replicate_single)

lemma padCell_returns:
  assumes "int (length cell) \<le> width"
  shows "\<exists>l r. padCell cell width = Inr (replicate l SPACE @ cell @ replicate r SPACE)"
proof -
  let ?space = "width - int (length cell)"
  from assms have "0 \<le> ?space div 2" "0 \<le> ?space - ?space div 2" by simp_all
  then have "padCell cell width =
      Inr (replicate (nat (?space div 2)) SPACE @ cell @
           replicate (nat (?space - ?space div 2)) SPACE)"
    by (simp add: padCell_def Let_def repeat_unit)
  then show ?thesis by blast
qed

lemma alignCell_returns:
  assumes "1 \<le> len"
  shows "\<exists>s. alignCell a len = Inr s \<and> int (length s) = len + 1 \<and>
           set s \<subseteq> {COLON, DASH} \<and> (a = AlignCenter \<longrightarrow> set s = {DASH})"
proof (cases a)
  case AlignLeft
  with assms have "alignCell a len = Inr ([COLON] @ [] @ [DASH] @ replicate (nat (len - 1)) DASH)"
    by (simp add: alignCell_def Let_def repeat_unit)
  with assms AlignLeft show ?thesis by auto
next
  case AlignRight
  with assms have "alignCell a len = Inr ([DASH] @ replicate (nat (len - 1)) DASH @ [COLON] @ [])"
    by (simp add: alignCell_def Let_def repeat_unit)
  with assms AlignRight show ?thesis by auto
next
  case AlignCenter
  let ?left = "(len - 1) div 2"
  from assms have l: "0 \<le> ?left" "0 \<le> len - 1 - ?left" by simp_all
  then have "alignCell a len =
      Inr ([DASH] @ replicate (nat ?left) DASH @ [DASH] @ replicate (nat (len - 1 - ?left)) DASH)"
    by (simp add: AlignCenter alignCell_def Let_def repeat_unit)
  moreover have "int (length ([DASH] @ replicate (nat ?left) DASH @ [DASH] @
      replicate (nat (len - 1 - ?left)) DASH)) = len + 1"
    using l by simp
  moreover have "set ([DASH] @ replicate (nat ?left) DASH @ [DASH] @
      replicate (nat (len - 1 - ?left)) DASH) = {DASH}"
    by auto
  ultimately show ?thesis by auto
qed

lemma lit_frame: "lit ''| '' = [PIPE, SPACE]" "lit '' | '' = [SPACE, PIPE, SPACE]"
  "lit '' |'' = [SPACE, PIPE]"
  by (simp_all add: lit_def PIPE_def SPACE_def)

lemma plain_units: "\<not> is_ws PIPE" "is_ws SPACE" "NL \<noteq> PIPE" "NL \<noteq> SPACE" "NL \<noteq> COLON"
  "NL \<noteq> DASH" "PIPE \<noteq> SPACE"
  by (simp_all add: is_ws_def PIPE_def SPACE_def NL_def COLON_def DASH_def)

lemma join_padded:
  "ys \<noteq> [] \<Longrightarrow>
   [SPACE] @ join [SPACE, PIPE, SPACE] ys @ [SPACE] =
     join [PIPE] (map (\<lambda>y. [SPACE] @ y @ [SPACE]) ys)"
  by (induction "[SPACE, PIPE, SPACE]" ys rule: join.induct) simp_all

lemma rendered_row_split:
  assumes "ys \<noteq> []" and "\<forall>y \<in> set ys. PIPE \<notin> set y"
  shows "split PIPE (lit ''| '' @ join (lit '' | '') ys @ lit '' |'') =
     [] # map (\<lambda>y. [SPACE] @ y @ [SPACE]) ys @ [[]]"
proof -
  let ?qs = "map (\<lambda>y. [SPACE] @ y @ [SPACE]) ys"
  have "lit ''| '' @ join (lit '' | '') ys @ lit '' |'' =
      [PIPE] @ ([SPACE] @ join [SPACE, PIPE, SPACE] ys @ [SPACE]) @ [PIPE]"
    by (simp add: lit_frame)
  also have "\<dots> = [] @ PIPE # (join [PIPE] ?qs @ [PIPE])"
    using join_padded [OF assms(1)] by simp
  also have "join [PIPE] ?qs @ [PIPE] = join [PIPE] (?qs @ [[]])"
    using assms(1) by (intro join_snoc_empty) simp
  finally have "split PIPE (lit ''| '' @ join (lit '' | '') ys @ lit '' |'') =
      split PIPE ([] @ PIPE # join [PIPE] (?qs @ [[]]))"
    by simp
  also have "\<dots> = [] # split PIPE (join [PIPE] (?qs @ [[]]))"
    by (rule split_first) simp
  also have "split PIPE (join [PIPE] (?qs @ [[]])) = ?qs @ [[]]"
    using assms(2) plain_units(7) by (intro split_join) auto
  finally show ?thesis .
qed

lemma clean_framed_row: "row \<noteq> [] \<Longrightarrow> clean_row ([] # row @ [[]]) = row"
  by (simp add: clean_row_def)

lemma trim_spaced:
  assumes "cell = [] \<or> (\<not> is_ws (hd cell) \<and> \<not> is_ws (last cell))"
  shows "trim ([SPACE] @ (replicate l SPACE @ cell @ replicate r SPACE) @ [SPACE]) = cell"
proof -
  have "trim (([SPACE] @ replicate l SPACE) @ cell @ (replicate r SPACE @ [SPACE])) = cell"
    using assms by (rule trim_padded) (auto simp add: plain_units)
  then show ?thesis by simp
qed

lemma map_throw_rel:
  assumes "\<forall>x \<in> set xs. \<exists>y. f x = Inr y \<and> R x y"
  shows "\<exists>ys. map_throw f xs = Inr ys \<and> list_all2 R xs ys"
  using assms
proof (induction xs)
  case Nil
  show ?case by simp
next
  case (Cons x xs)
  then obtain y where y: "f x = Inr y" "R x y" by auto
  from Cons obtain ys where ys: "map_throw f xs = Inr ys" "list_all2 R xs ys" by auto
  from y ys have "map_throw f (x # xs) = Inr (y # ys)" "list_all2 R (x # xs) (y # ys)"
    by simp_all
  then show ?case by blast
qed

lemma list_all2_enumerate:
  assumes "list_all2 (\<lambda>p y. R (snd p) y) (enumerate 0 row) ys"
  shows "list_all2 R row ys"
proof -
  have "list_all2 R (map snd (enumerate 0 row)) ys =
      list_all2 (\<lambda>p y. R (snd p) y) (enumerate 0 row) ys"
    by (rule list_all2_map1)
  with assms have "list_all2 R (map snd (enumerate 0 row)) ys" by simp
  then show ?thesis by (simp only: map_snd_enumerate)
qed

lemma formatRow_data:
  assumes "rowIndex \<noteq> 1" and "\<forall>i < length row. int (length (row ! i)) \<le> widths ! i"
  shows "\<exists>ys. formatRow aligns widths (rowIndex, row) =
             Inr (lit ''| '' @ join (lit '' | '') ys @ lit '' |'') \<and>
           list_all2 (\<lambda>cell y. \<exists>l r. y = replicate l SPACE @ cell @ replicate r SPACE) row ys"
proof -
  let ?R = "\<lambda>cell y. \<exists>l r. y = replicate l SPACE @ cell @ replicate r SPACE"
  have "\<forall>p \<in> set (enumerate 0 row). \<exists>y. formatCell aligns widths rowIndex p = Inr y \<and> ?R (snd p) y"
  proof
    fix p assume "p \<in> set (enumerate 0 row)"
    then have i: "fst p < length row" and c: "snd p = row ! fst p"
      by (simp_all add: in_set_enumerate_eq)
    with assms(2) have "int (length (snd p)) \<le> widths ! fst p" by simp
    then have "\<exists>l r. padCell (snd p) (widths ! fst p) =
        Inr (replicate l SPACE @ snd p @ replicate r SPACE)"
      by (rule padCell_returns)
    with assms(1) show "\<exists>y. formatCell aligns widths rowIndex p = Inr y \<and> ?R (snd p) y"
      by (cases p) (auto simp add: formatCell_def)
  qed
  then obtain ys where ys: "map_throw (formatCell aligns widths rowIndex) (enumerate 0 row) = Inr ys"
    and rel: "list_all2 (\<lambda>p y. ?R (snd p) y) (enumerate 0 row) ys"
    using map_throw_rel [of "enumerate 0 row" "formatCell aligns widths rowIndex" "\<lambda>p y. ?R (snd p) y"]
    by blast
  from rel have "list_all2 ?R row ys" by (rule list_all2_enumerate)
  moreover from ys have "formatRow aligns widths (rowIndex, row) =
      Inr (lit ''| '' @ join (lit '' | '') ys @ lit '' |'')"
    by (simp add: formatRow_def)
  ultimately show ?thesis by blast
qed

lemma formatRow_separator:
  assumes "\<forall>i < length row. 1 \<le> widths ! i"
  shows "\<exists>ys. formatRow aligns widths (1, row) =
             Inr (lit ''| '' @ join (lit '' | '') ys @ lit '' |'') \<and>
           list_all2 (\<lambda>cell y. set y \<subseteq> {COLON, DASH}) row ys"
proof -
  let ?R = "\<lambda>(cell::jsstring) (y::jsstring). set y \<subseteq> {COLON, DASH}"
  have "\<forall>p \<in> set (enumerate 0 row). \<exists>y. formatCell aligns widths 1 p = Inr y \<and> ?R (snd p) y"
  proof
    fix p assume "p \<in> set (enumerate 0 row)"
    then have i: "fst p < length row"
      by (simp_all add: in_set_enumerate_eq)
    with assms have "1 \<le> widths ! fst p" by simp
    then have "\<exists>s. alignCell (aligns ! fst p) (widths ! fst p) = Inr s \<and>
        int (length s) = widths ! fst p + 1 \<and> set s \<subseteq> {COLON, DASH} \<and>
        (aligns ! fst p = AlignCenter \<longrightarrow> set s = {DASH})"
      by (rule alignCell_returns)
    then show "\<exists>y. formatCell aligns widths 1 p = Inr y \<and> ?R (snd p) y"
      by (cases p) (auto simp add: formatCell_def)
  qed
  then obtain ys where ys: "map_throw (formatCell aligns widths 1) (enumerate 0 row) = Inr ys"
    and rel: "list_all2 (\<lambda>p y. ?R (snd p) y) (enumerate 0 row) ys"
    using map_throw_rel [of "enumerate 0 row" "formatCell aligns widths 1" "\<lambda>p y. ?R (snd p) y"]
    by blast
  from rel have "list_all2 ?R row ys" by (rule list_all2_enumerate)
  moreover from ys have "formatRow aligns widths (1, row) =
      Inr (lit ''| '' @ join (lit '' | '') ys @ lit '' |'')"
    by (simp add: formatRow_def)
  ultimately show ?thesis by blast
qed

lemma set_join: "set (join sep ys) \<subseteq> set sep \<union> \<Union> (set ` set ys)"
  by (induction sep ys rule: join.induct) auto

lemma rendered_row_frame:
  fixes ys :: "jsstring list"
  defines "fr \<equiv> lit ''| '' @ join (lit '' | '') ys @ lit '' |''"
  shows "fr \<noteq> []" and "hd fr = PIPE" and "last fr = PIPE"
    and "\<forall>y \<in> set ys. NL \<notin> set y \<Longrightarrow> NL \<notin> set fr"
proof -
  show "fr \<noteq> []" "hd fr = PIPE" "last fr = PIPE"
    by (simp_all add: fr_def lit_frame)
  assume "\<forall>y \<in> set ys. NL \<notin> set y"
  with set_join [of "[SPACE, PIPE, SPACE]" ys] have "NL \<notin> set (join [SPACE, PIPE, SPACE] ys)"
    using plain_units by auto
  then show "NL \<notin> set fr"
    using plain_units by (simp add: fr_def lit_frame)
qed

lemma rendered_row_parse:
  assumes "row \<noteq> []"
    and "\<forall>cell \<in> set row. PIPE \<notin> set cell \<and>
           (cell = [] \<or> (\<not> is_ws (hd cell) \<and> \<not> is_ws (last cell)))"
    and "list_all2 (\<lambda>cell y. \<exists>l r. y = replicate l SPACE @ cell @ replicate r SPACE) row ys"
  shows "clean_row (parse_row (lit ''| '' @ join (lit '' | '') ys @ lit '' |'')) = row"
proof -
  let ?fr = "lit ''| '' @ join (lit '' | '') ys @ lit '' |''"
  from assms(3) have len: "length row = length ys" by (rule list_all2_lengthD)
  with assms(1) have ys: "ys \<noteq> []" by auto
  have pad: "\<exists>l r. ys ! i = replicate l SPACE @ row ! i @ replicate r SPACE" if "i < length row" for i
    using assms(3) that by (rule list_all2_nthD)
  have nopipe: "\<forall>y \<in> set ys. PIPE \<notin> set y"
  proof
    fix y assume "y \<in> set ys"
    then obtain i where i: "i < length ys" "y = ys ! i" by (auto simp add: in_set_conv_nth)
    with len pad [of i] obtain l r where y: "y = replicate l SPACE @ row ! i @ replicate r SPACE"
      by auto
    from i len have "row ! i \<in> set row" by simp
    with assms(2) have "PIPE \<notin> set (row ! i)" by blast
    with y show "PIPE \<notin> set y" using plain_units(7) by auto
  qed
  have "trim ?fr = ?fr"
    using rendered_row_frame(1-3) [of ys] plain_units(1) by (intro trim_fixed) simp_all
  then have "parse_row ?fr = map trim (split PIPE ?fr)"
    by (simp add: parse_row_def)
  also have "\<dots> = map trim ([] # map (\<lambda>y. [SPACE] @ y @ [SPACE]) ys @ [[]])"
    by (simp only: rendered_row_split [OF ys nopipe])
  also have "\<dots> = [] # map (\<lambda>y. trim ([SPACE] @ y @ [SPACE])) ys @ [[]]"
    by (simp add: trim_def)
  also have "map (\<lambda>y. trim ([SPACE] @ y @ [SPACE])) ys = row"
  proof (rule nth_equalityI)
    show "length (map (\<lambda>y. trim ([SPACE] @ y @ [SPACE])) ys) = length row"
      using len by simp
    fix i assume "i < length (map (\<lambda>y. trim ([SPACE] @ y @ [SPACE])) ys)"
    then have i: "i < length row" using len by simp
    then obtain l r where y: "ys ! i = replicate l SPACE @ row ! i @ replicate r SPACE"
      using pad by blast
    from i have "row ! i \<in> set row" by simp
    with assms(2) have "row ! i = [] \<or> (\<not> is_ws (hd (row ! i)) \<and> \<not> is_ws (last (row ! i)))"
      by blast
    then have "trim ([SPACE] @ (replicate l SPACE @ row ! i @ replicate r SPACE) @ [SPACE]) = row ! i"
      by (rule trim_spaced)
    with i len y show "map (\<lambda>y. trim ([SPACE] @ y @ [SPACE])) ys ! i = row ! i"
      by simp
  qed
  finally have "parse_row ?fr = [] # row @ [[]]" .
  then show ?thesis by (simp only: clean_framed_row [OF assms(1)])
qed

lemma hd_join: "xs \<noteq> [] \<Longrightarrow> hd xs \<noteq> [] \<Longrightarrow> hd (join sep xs) = hd (hd xs)"
  by (induction sep xs rule: join.induct) simp_all

lemma join_last_not_Nil: "xs \<noteq> [] \<Longrightarrow> last xs \<noteq> [] \<Longrightarrow> join sep xs \<noteq> []"
  by (induction sep xs rule: join.induct) simp_all

lemma last_join: "xs \<noteq> [] \<Longrightarrow> last xs \<noteq> [] \<Longrightarrow> last (join sep xs) = last (last xs)"
proof (induction sep xs rule: join.induct)
  case (3 sep x y ys)
  then have "last (join sep (y # ys)) = last (last (y # ys))" by simp
  moreover have "join sep (y # ys) \<noteq> []"
    using 3(3) by (intro join_last_not_Nil) simp_all
  ultimately show ?case by simp
qed simp_all

lemma join_not_Nil: "xs \<noteq> [] \<Longrightarrow> hd xs \<noteq> [] \<Longrightarrow> join sep xs \<noteq> []"
  by (induction sep xs rule: join.induct) simp_all

lemma valid_widths:
  assumes "valid_table md" and "colWidths (cleanedRows md) = Inr widths"
    and "row \<in> set (cleanedRows md)" and "i < length row"
  shows "int (length (row ! i)) \<le> widths ! i" and "i < length widths"
proof -
  let ?rows = "cleanedRows md"
  have len: "length row = colCount ?rows"
    using assms(1,3) by (rule valid_table_rows(2))
  have "colWidths ?rows =
      Inr (map (\<lambda>col. math_max (map (\<lambda>row. int (length (row ! col))) ?rows)) [0 ..< colCount ?rows])"
    using valid_table_rows(2) [OF assms(1)] by (rule colWidths_valid)
  with assms(2) have w: "widths =
      map (\<lambda>col. math_max (map (\<lambda>row. int (length (row ! col))) ?rows)) [0 ..< colCount ?rows]"
    by simp
  with len assms(4) show "i < length widths" by simp
  from assms(3) have ne: "map (\<lambda>row. int (length (row ! i))) ?rows \<noteq> []" by auto
  have "math_max (map (\<lambda>row. int (length (row ! i))) ?rows) =
      Max (set (map (\<lambda>row. int (length (row ! i))) ?rows))"
    using ne by (rule math_max_Max) auto
  moreover have "int (length (row ! i)) \<in> set (map (\<lambda>row. int (length (row ! i))) ?rows)"
    using assms(3) by auto
  then have "int (length (row ! i)) \<le> Max (set (map (\<lambda>row. int (length (row ! i))) ?rows))"
    by (intro Max_ge) simp_all
  ultimately show "int (length (row ! i)) \<le> widths ! i"
    using w len assms(4) by simp
qed

lemma formatRow_valid:
  assumes "valid_table md" and "colWidths (cleanedRows md) = Inr widths"
    and "\<forall>w \<in> set widths. 1 \<le> w"
    and "r < length (cleanedRows md)"
  shows "\<exists>fr. formatRow aligns widths (r, cleanedRows md ! r) = Inr fr \<and>
           fr \<noteq> [] \<and> hd fr = PIPE \<and> last fr = PIPE \<and> NL \<notin> set fr \<and>
           (r \<noteq> 1 \<and> cleanedRows md ! r \<noteq> [] \<longrightarrow>
              clean_row (parse_row fr) = cleanedRows md ! r)"
proof -
  let ?row = "cleanedRows md ! r"
  have row: "?row \<in> set (cleanedRows md)" using assms(4) by (rule nth_mem)
  have cells: "PIPE \<notin> set cell \<and> NL \<notin> set cell \<and>
      (cell = [] \<or> (\<not> is_ws (hd cell) \<and> \<not> is_ws (last cell)))"
    if "cell \<in> set ?row" for cell
    using parsed_cell [OF row that] by simp
  have bound: "int (length (?row ! i)) \<le> widths ! i" and inside: "i < length widths"
    if "i < length ?row" for i
    using valid_widths [OF assms(1,2) row that] by simp_all
  show ?thesis
  proof (cases "r = 1")
    case True
    have "\<forall>i < length ?row. 1 \<le> widths ! i"
      using inside assms(3) by simp
    then obtain ys where fr: "formatRow aligns widths (1, ?row) =
        Inr (lit ''| '' @ join (lit '' | '') ys @ lit '' |'')"
      and ys: "list_all2 (\<lambda>cell y. set y \<subseteq> {COLON, DASH}) ?row ys"
      using formatRow_separator by blast
    have "\<forall>y \<in> set ys. NL \<notin> set y"
    proof
      fix y assume "y \<in> set ys"
      with ys have "set y \<subseteq> {COLON, DASH}"
        by (auto simp add: list_all2_conv_all_nth in_set_conv_nth)
      then show "NL \<notin> set y" using plain_units(5,6) by auto
    qed
    then have "NL \<notin> set (lit ''| '' @ join (lit '' | '') ys @ lit '' |'')"
      by (rule rendered_row_frame(4))
    with fr True rendered_row_frame(1-3) [of ys] show ?thesis by simp
  next
    case False
    have "\<forall>i < length ?row. int (length (?row ! i)) \<le> widths ! i"
      using bound by simp
    with False obtain ys where fr: "formatRow aligns widths (r, ?row) =
        Inr (lit ''| '' @ join (lit '' | '') ys @ lit '' |'')"
      and ys: "list_all2 (\<lambda>cell y. \<exists>l r. y = replicate l SPACE @ cell @ replicate r SPACE) ?row ys"
      using formatRow_data by blast
    have "\<forall>y \<in> set ys. NL \<notin> set y"
    proof
      fix y assume "y \<in> set ys"
      then obtain i where i: "i < length ys" "y = ys ! i" by (auto simp add: in_set_conv_nth)
      from ys have len: "length ?row = length ys" by (rule list_all2_lengthD)
      with i have "?row ! i \<in> set ?row" by simp
      then have "NL \<notin> set (?row ! i)" using cells by blast
      moreover from ys i len obtain l r' where
        "y = replicate l SPACE @ ?row ! i @ replicate r' SPACE"
        by (auto simp add: list_all2_conv_all_nth)
      ultimately show "NL \<notin> set y" using plain_units(4) by auto
    qed
    then have nl: "NL \<notin> set (lit ''| '' @ join (lit '' | '') ys @ lit '' |'')"
      by (rule rendered_row_frame(4))
    have "clean_row (parse_row (lit ''| '' @ join (lit '' | '') ys @ lit '' |'')) = ?row"
      if "?row \<noteq> []"
      using that _ ys by (rule rendered_row_parse) (use cells in blast)
    with fr nl rendered_row_frame(1-3) [of ys] show ?thesis by simp
  qed
qed

subsection \<open>The output read back\<close>

lemma format_preserves_cells:
  assumes "valid_table md" and "colWidths (cleanedRows md) = Inr widths"
    and "\<forall>w \<in> set widths. 1 \<le> w"
  shows "\<exists>out. formatMarkdownTable md = Inr ([], out) \<and>
           length (table_lines out) = length (table_lines md) \<and>
           (\<forall>r < length (cleanedRows md). r \<noteq> 1 \<and> cleanedRows md ! r \<noteq> [] \<longrightarrow>
              cleanedRows out ! r = cleanedRows md ! r)"
proof -
  let ?rows = "cleanedRows md"
  let ?aligns = "alignments ?rows"
  let ?Q = "\<lambda>p fr. fr \<noteq> [] \<and> hd fr = PIPE \<and> last fr = PIPE \<and> NL \<notin> set fr \<and>
      (fst p \<noteq> 1 \<and> snd p \<noteq> [] \<longrightarrow> clean_row (parse_row fr) = snd p)"
  have "\<forall>p \<in> set (enumerate 0 ?rows). \<exists>fr. formatRow ?aligns widths p = Inr fr \<and> ?Q p fr"
  proof
    fix p assume "p \<in> set (enumerate 0 ?rows)"
    then have r: "fst p < length ?rows" and p: "p = (fst p, ?rows ! fst p)"
      by (simp_all add: in_set_enumerate_eq prod_eq_iff)
    from formatRow_valid [OF assms r, of ?aligns]
    obtain fr where "formatRow ?aligns widths (fst p, ?rows ! fst p) = Inr fr"
      "fr \<noteq> []" "hd fr = PIPE" "last fr = PIPE" "NL \<notin> set fr"
      "fst p \<noteq> 1 \<and> ?rows ! fst p \<noteq> [] \<longrightarrow> clean_row (parse_row fr) = ?rows ! fst p"
      by blast
    with p show "\<exists>fr. formatRow ?aligns widths p = Inr fr \<and> ?Q p fr"
      by (metis snd_conv)
  qed
  then obtain frs where frs: "map_throw (formatRow ?aligns widths) (enumerate 0 ?rows) = Inr frs"
    and rel: "list_all2 ?Q (enumerate 0 ?rows) frs"
    using map_throw_rel [of "enumerate 0 ?rows" "formatRow ?aligns widths" ?Q] by blast
  from rel have len: "length frs = length ?rows"
    by (simp add: list_all2_lengthD [symmetric])
  have two: "2 \<le> length ?rows" using assms(1) by (rule valid_table_rows(1))
  have q: "?Q (r, ?rows ! r) (frs ! r)" if "r < length ?rows" for r
  proof -
    from rel that have "?Q (enumerate 0 ?rows ! r) (frs ! r)"
      by (simp add: list_all2_conv_all_nth)
    with that show ?thesis by (simp add: nth_enumerate_eq)
  qed
  have all: "fr \<noteq> [] \<and> hd fr = PIPE \<and> last fr = PIPE \<and> NL \<notin> set fr" if "fr \<in> set frs" for fr
  proof -
    from that obtain r where "r < length frs" "fr = frs ! r"
      by (auto simp add: in_set_conv_nth)
    with q [of r] len show ?thesis by simp
  qed
  let ?out = "join [NL] frs"
  have ne: "frs \<noteq> []" using two len by auto
  then have h: "hd frs \<in> set frs" and l: "last frs \<in> set frs" by simp_all
  have out: "formatMarkdownTable md = Inr ([], ?out)"
    using assms(1,2) frs by (simp add: formatMarkdownTable_def valid_table_def Let_def)
  have "?out \<noteq> []" using ne all [OF h] by (intro join_not_Nil) simp_all
  moreover have "hd ?out = PIPE" using ne all [OF h] by (simp add: hd_join)
  moreover have "last ?out = PIPE" using ne all [OF l] by (simp add: last_join)
  ultimately have "trim ?out = ?out"
    using plain_units(1) by (intro trim_fixed) simp_all
  moreover have "split NL ?out = frs"
    using ne all by (intro split_join) blast+
  ultimately have lines: "table_lines ?out = frs"
    by (simp add: table_lines_def)
  then have "length (table_lines ?out) = length (table_lines md)"
    by (simp add: len length_cleanedRows)
  moreover have "cleanedRows ?out ! r = ?rows ! r"
    if "r < length ?rows" "r \<noteq> 1 \<and> ?rows ! r \<noteq> []" for r
  proof -
    from that(1) len have "cleanedRows ?out ! r = clean_row (parse_row (frs ! r))"
      by (simp add: cleanedRows_def lines)
    with q [OF that(1)] that(2) show ?thesis by simp
  qed
  ultimately show ?thesis using out by blast
qed

text \<open>
  Claim C10 asks that for every valid table the returned string has the lines of the
  input and the cells of its header and data rows. That holds when no width is 0, as
  shown above. The table below is valid and has an empty second column; the formatter
  returns no string for it, it throws while writing the alignment row.
\<close>

theorem format_throws_on_valid_table:
  "valid_table (lit ''| a | |\<newline>| - | |\<newline>| 1 | |'') \<and>
   cleanedRows (lit ''| a | |\<newline>| - | |\<newline>| 1 | |'') =
     [[lit ''a'', []], [lit ''-'', []], [lit ''1'', []]] \<and>
   formatMarkdownTable (lit ''| a | |\<newline>| - | |\<newline>| 1 | |'') = Inl RangeError"
  by code_simp

end
